theory Spec2Isabelle
  imports Complex_Main "HOL-Library.Sublist"
begin

section \<open>Strings and the Unicode tables\<close>

text \<open>
  A Python \<open>str\<close> is a sequence of Unicode code points, so a string is a list of
  code points (natural numbers) and \<open>len\<close>, slicing and comparison work per code
  point. \<open>ascii\<close> writes an ASCII literal of the source as such a list.
\<close>

type_synonym ustring = "nat list"

definition ascii :: "string \<Rightarrow> ustring" where
  "ascii s = map of_char s"

text \<open>
  The source calls the Python standard library for everything that depends on the
  Unicode character database: \<open>unicodedata.normalize('NFD', s)\<close>,
  \<open>unicodedata.category(c)\<close>, the whitespace test behind \<open>\s\<close> and
  \<open>str.strip()\<close> (both use the same predicate in CPython), and \<open>str.lower()\<close>.
  The database is not part of the repository, so it is a parameter of the model:
  \<^item> \<open>canon_decomp c\<close>: the full canonical decomposition of the code point \<open>c\<close>
    (\<open>[c]\<close> when it has none);
  \<^item> \<open>combining c\<close>: its canonical combining class (\<open>unicodedata.combining\<close>);
  \<^item> \<open>category_Mn c\<close>: whether \<open>unicodedata.category(c) == 'Mn'\<close>;
  \<^item> \<open>isspace c\<close>: whether \<open>c\<close> is whitespace for \<open>\s\<close> and \<open>strip()\<close>;
  \<^item> \<open>str_lower s\<close>: \<open>s.lower()\<close>, a function of the whole string (the lower case of
    a capital sigma depends on its neighbours).
\<close>

record ucd =
  canon_decomp :: "nat \<Rightarrow> nat list"
  combining :: "nat \<Rightarrow> nat"
  category_Mn :: "nat \<Rightarrow> bool"
  isspace :: "nat \<Rightarrow> bool"
  str_lower :: "ustring \<Rightarrow> ustring"

text \<open>
  Normalization form D (UAX 15): every code point is replaced by its full canonical
  decomposition, then the canonical ordering algorithm sorts each run of characters of
  non-zero combining class by class, stably. \<open>canon_insert\<close> moves a character to the
  right past the characters of smaller non-zero class.
\<close>

fun canon_insert :: "(nat \<Rightarrow> nat) \<Rightarrow> nat \<Rightarrow> ustring \<Rightarrow> ustring" where
  "canon_insert cc x [] = [x]"
| "canon_insert cc x (y # ys) =
     (if 0 < cc y \<and> cc y < cc x then y # canon_insert cc x ys else x # y # ys)"

definition canon_order :: "(nat \<Rightarrow> nat) \<Rightarrow> ustring \<Rightarrow> ustring" where
  "canon_order cc s = foldr (canon_insert cc) s []"

definition normalize_NFD :: "ucd \<Rightarrow> ustring \<Rightarrow> ustring" where
  "normalize_NFD db s = canon_order (combining db) (concat (map (canon_decomp db) s))"

section \<open>String operations of the source\<close>

text \<open>\<open>s.replace(a, b)\<close> for one-character \<open>a\<close> and \<open>b\<close>.\<close>

definition replace_char :: "nat \<Rightarrow> nat \<Rightarrow> ustring \<Rightarrow> ustring" where
  "replace_char a b s = map (\<lambda>c. if c = a then b else c) s"

text \<open>
  The character class that \<open>re.sub\<close> deletes in both normalizers: question mark,
  exclamation mark, colon, semicolon, comma, double quote, single quote, period,
  ellipsis U+2026, em dash U+2014, en dash U+2013, hyphen.
\<close>

definition punct :: "nat list" where
  "punct = [63, 33, 58, 59, 44, 34, 39, 46, 0x2026, 0x2014, 0x2013, 45]"

definition strip_punct :: "ustring \<Rightarrow> ustring" where
  "strip_punct s = filter (\<lambda>c. c \<notin> set punct) s"

text \<open>\<open>re.sub(r'\s+', ' ', s)\<close>: every maximal run of whitespace becomes one space.\<close>

function collapse_ws :: "(nat \<Rightarrow> bool) \<Rightarrow> ustring \<Rightarrow> ustring" where
  "collapse_ws sp [] = []"
| "collapse_ws sp (c # cs) =
     (if sp c then 32 # collapse_ws sp (dropWhile sp cs) else c # collapse_ws sp cs)"
  by pat_completeness auto
termination
  by (relation "measure (\<lambda>(sp, s). length s)")
     (auto simp: less_Suc_eq_le length_dropWhile_le)

text \<open>\<open>s.strip()\<close>: leading and trailing whitespace removed.\<close>

definition strip_ws :: "(nat \<Rightarrow> bool) \<Rightarrow> ustring \<Rightarrow> ustring" where
  "strip_ws sp s = rev (dropWhile sp (rev (dropWhile sp s)))"

text \<open>\<open>s.endswith(t)\<close> and \<open>s.startswith(t)\<close>.\<close>

definition endswith :: "ustring \<Rightarrow> ustring \<Rightarrow> bool" where
  "endswith s t = suffix t s"

definition startswith :: "ustring \<Rightarrow> ustring \<Rightarrow> bool" where
  "startswith s t = prefix t s"

text \<open>\<open>s.rfind(c)\<close> for a one-character \<open>c\<close>: the last index of \<open>c\<close>, or -1.\<close>

fun rfind :: "ustring \<Rightarrow> nat \<Rightarrow> int" where
  "rfind [] c = -1"
| "rfind (x # xs) c =
     (let r = rfind xs c in if 0 \<le> r then r + 1 else if x = c then 0 else -1)"

text \<open>
  \<open>os.path.splitext\<close> of \<open>posixpath\<close> (the program is written for macOS): the
  extension starts at the last dot after the last slash, unless only dots precede it
  in the last component. The library's loop looks for a character other than the dot
  in the slice \<open>p[sepIndex+1:dotIndex]\<close>.
\<close>

definition splitext :: "ustring \<Rightarrow> ustring \<times> ustring" where
  "splitext p =
     (let sepIndex = rfind p 47; dotIndex = rfind p 46 in
      if dotIndex > sepIndex \<and>
         list_ex (\<lambda>c. c \<noteq> 46)
           (take (nat dotIndex - nat (sepIndex + 1)) (drop (nat (sepIndex + 1)) p))
      then (take (nat dotIndex) p, drop (nat dotIndex) p)
      else (p, []))"

text \<open>\<open>s.replace(" ", "")\<close>.\<close>

definition remove_spaces :: "ustring \<Rightarrow> ustring" where
  "remove_spaces s = filter (\<lambda>c. c \<noteq> 32) s"

section \<open>The normalizers\<close>

text \<open>
  \<open>sanitize_filename\<close> (gui\_flash\_cards.py and, step for step the same,
  generate\_audio.py). U+0451 and U+0401 are the letter yo, U+0435 and U+0415 the
  letter ie; 47 is the slash, 92 the backslash, 45 the hyphen.
\<close>

definition sanitize_filename :: "ucd \<Rightarrow> ustring \<Rightarrow> ustring" where
  "sanitize_filename db text =
     (let no_accents = filter (\<lambda>c. \<not> category_Mn db c) (normalize_NFD db text);
          yo_fixed = replace_char 0x401 0x415 (replace_char 0x451 0x435 no_accents);
          cleaned = replace_char 92 45 (replace_char 47 45 (strip_punct yo_fixed))
      in strip_ws (isspace db) (collapse_ws (isspace db) cleaned))"

definition norm_base :: "ucd \<Rightarrow> ustring \<Rightarrow> ustring" where
  "norm_base db name =
     (let base = fst (splitext name);
          base = normalize_NFD db base;
          base = filter (\<lambda>c. \<not> category_Mn db c) base;
          base = replace_char 0x401 0x415 (replace_char 0x451 0x435 base);
          base = strip_punct base;
          base = strip_ws (isspace db) (collapse_ws (isspace db) base)
      in str_lower db base)"

text \<open>
  The entries of the Unicode database for ASCII, the Russian alphabet (U+0410 to
  U+044F, U+0401, U+0451), the combining acute accent U+0301, breve U+0306 and
  diaeresis U+0308 (class 230, category Mn) and the three punctuation marks above
  ASCII. Every other code point is entered as a character without decomposition, of
  class 0; the table is used at inputs of this repertoire only.
\<close>

definition russian_decomp :: "nat \<Rightarrow> nat list" where
  "russian_decomp c =
     (if c = 0x451 then [0x435, 0x308] else if c = 0x401 then [0x415, 0x308]
      else if c = 0x439 then [0x438, 0x306] else if c = 0x419 then [0x418, 0x306]
      else [c])"

definition russian_mark :: "nat \<Rightarrow> bool" where
  "russian_mark c = (c = 0x301 \<or> c = 0x306 \<or> c = 0x308)"

definition ascii_space :: "nat \<Rightarrow> bool" where
  "ascii_space c = ((9 \<le> c \<and> c \<le> 13) \<or> (28 \<le> c \<and> c \<le> 32))"

definition russian_lower :: "nat \<Rightarrow> nat" where
  "russian_lower c =
     (if 65 \<le> c \<and> c \<le> 90 then c + 32
      else if 0x410 \<le> c \<and> c \<le> 0x42F then c + 32
      else if c = 0x401 then 0x451 else c)"

definition ucd_russian :: ucd where
  "ucd_russian =
     \<lparr> canon_decomp = russian_decomp,
       combining = (\<lambda>c. if russian_mark c then 230 else 0),
       category_Mn = russian_mark,
       isspace = ascii_space,
       str_lower = map russian_lower \<rparr>"

text \<open>
  The entries of three code points outside that repertoire: U+0941 (Devanagari vowel
  sign u: category Mn, class 0) and the musical symbols U+1D165 (combining stem:
  category Mc, class 216) and U+1D16D (combining augmentation dot: category Mc, class
  226). None has a decomposition or another case.
\<close>

definition ucd_musical :: ucd where
  "ucd_musical =
     \<lparr> canon_decomp = (\<lambda>c. [c]),
       combining = (\<lambda>c. if c = 0x1D165 then 216 else if c = 0x1D16D then 226 else 0),
       category_Mn = (\<lambda>c. c = 0x941),
       isspace = ascii_space,
       str_lower = (\<lambda>s. s) \<rparr>"

section \<open>Folders\<close>

text \<open>
  The program reads two folders, \<open>AUDIO_FOLDER\<close> and \<open>RECORDINGS_FOLDER\<close>. What it
  sees of the file system through one of them is:
  \<^item> \<open>is_dir\<close>: \<open>os.path.isdir(FOLDER)\<close>;
  \<^item> \<open>listable\<close>: whether \<open>os.listdir(FOLDER)\<close> succeeds;
  \<^item> \<open>entries\<close>: the names \<open>os.listdir(FOLDER)\<close> yields, in its order;
  \<^item> \<open>path_exists name\<close>: \<open>os.path.exists(os.path.join(FOLDER, name))\<close>.
  Every path the functions build is \<open>os.path.join(FOLDER, name)\<close> for a fixed
  folder; the model carries \<open>name\<close>, so a returned path is given by the name that was
  joined. \<open>path_exists\<close> is a field of its own, not derived from the entries: for a
  name that is absolute \<open>os.path.join\<close> drops the folder, for a name with a slash the
  path enters a subdirectory or leaves the folder through "..", and a listed name may
  be a link to nothing.
\<close>

record folder =
  is_dir :: bool
  listable :: bool
  entries :: "ustring list"
  path_exists :: "ustring \<Rightarrow> bool"


text \<open>
  A readable directory that holds the files \<open>names\<close>, each of them existing, with
  nothing else in reach.
\<close>

definition holding :: "ustring list \<Rightarrow> folder" where
  "holding names =
     \<lparr> is_dir = True, listable = True, entries = names,
       path_exists = (\<lambda>name. name \<in> set names) \<rparr>"

text \<open>\<open>os.listdir\<close>: \<open>None\<close> stands for the exception it raises.\<close>

definition listdir :: "folder \<Rightarrow> ustring list option" where
  "listdir d = (if is_dir d \<and> listable d then Some (entries d) else None)"

section \<open>The resolver\<close>

definition mp3_candidates :: "ucd \<Rightarrow> ustring list \<Rightarrow> ustring list" where
  "mp3_candidates db names =
     filter (\<lambda>f. endswith (str_lower db f) (ascii ''.mp3'')) names"

text \<open>The two \<open>for\<close> loops of \<open>find_audio_path\<close>: the first match is returned.\<close>

definition scan_normalized :: "ucd \<Rightarrow> ustring list \<Rightarrow> ustring \<Rightarrow> ustring option" where
  "scan_normalized db candidates target_norm =
     find (\<lambda>fname. norm_base db fname = target_norm) candidates"

definition scan_loose :: "ucd \<Rightarrow> ustring list \<Rightarrow> ustring \<Rightarrow> ustring option" where
  "scan_loose db candidates target_norm =
     (let loose_target = remove_spaces target_norm in
      find (\<lambda>fname. remove_spaces (norm_base db fname) = loose_target) candidates)"

definition find_audio_path :: "ucd \<Rightarrow> folder \<Rightarrow> ustring \<Rightarrow> ustring option" where
  "find_audio_path db d display_word =
     (if \<not> is_dir d then None
      else
        let target_norm = norm_base db display_word in
        case listdir d of
          None \<Rightarrow> None
        | Some names \<Rightarrow>
            let candidates = mp3_candidates db names;
                direct = sanitize_filename db display_word @ ascii ''.mp3''
            in if path_exists d direct then Some direct
               else (case scan_normalized db candidates target_norm of
                       Some fname \<Rightarrow> Some fname
                     | None \<Rightarrow> scan_loose db candidates target_norm))"

text \<open>
  \<open>play_audio\<close> up to the point where \<open>path\<close> is settled (the rest shows a
  warning or plays the file). The hint is a Python string or \<open>None\<close>;
  \<open>if filename_hint:\<close> is false for \<open>None\<close> and for the empty string.
  \<open>hint_path\<close> is the value of \<open>path\<close> after the first \<open>if\<close>.
\<close>

definition hint_path :: "ucd \<Rightarrow> folder \<Rightarrow> ustring option \<Rightarrow> ustring option" where
  "hint_path db d filename_hint =
     (case filename_hint of
        None \<Rightarrow> None
      | Some h \<Rightarrow>
          if h = [] then None
          else
            let hinted = h @ ascii ''.mp3'' in
            if path_exists d hinted then Some hinted
            else
              let hinted_sanitized = sanitize_filename db h @ ascii ''.mp3'' in
              if path_exists d hinted_sanitized then Some hinted_sanitized else None)"

definition play_audio_path ::
  "ucd \<Rightarrow> folder \<Rightarrow> ustring \<Rightarrow> ustring option \<Rightarrow> ustring option" where
  "play_audio_path db d display_word filename_hint =
     (case hint_path db d filename_hint of
        None \<Rightarrow> find_audio_path db d display_word
      | Some path \<Rightarrow>
          if \<not> path_exists d path then find_audio_path db d display_word
          else Some path)"

section \<open>The latest recording\<close>

text \<open>
  \<open>find_latest_user_recording\<close>. \<open>mtime name\<close> is \<open>os.path.getmtime\<close> of the
  entry, \<open>None\<close> when it raises \<open>OSError\<close>; a Python float is a rational number
  and is compared as one. \<open>latest_step\<close> is one iteration of the loop on the pair
  \<open>(latest_path, latest_mtime)\<close>.
\<close>

definition latest_step ::
  "ucd \<Rightarrow> (ustring \<Rightarrow> rat option) \<Rightarrow> ustring \<Rightarrow> ustring option \<times> rat \<Rightarrow> ustring
     \<Rightarrow> ustring option \<times> rat" where
  "latest_step db mtime base acc fname =
     (if \<not> endswith (str_lower db fname) (ascii ''.wav'') then acc
      else if \<not> startswith (fst (splitext fname)) base then acc
      else case mtime fname of
        None \<Rightarrow> acc
      | Some m \<Rightarrow> if m > snd acc then (Some fname, m) else acc)"

definition find_latest_user_recording ::
  "ucd \<Rightarrow> folder \<Rightarrow> (ustring \<Rightarrow> rat option) \<Rightarrow> ustring \<Rightarrow> ustring option" where
  "find_latest_user_recording db d mtime display_word =
     (if \<not> is_dir d then None
      else
        let base = sanitize_filename db display_word in
        case listdir d of
          None \<Rightarrow> None
        | Some names \<Rightarrow> fst (foldl (latest_step db mtime base) (None, -1) names))"

text \<open>The two tests that let an entry of the loop through to \<open>getmtime\<close>.\<close>

definition wav_match :: "ucd \<Rightarrow> ustring \<Rightarrow> ustring \<Rightarrow> bool" where
  "wav_match db base fname =
     (endswith (str_lower db fname) (ascii ''.wav'') \<and> startswith (fst (splitext fname)) base)"

text \<open>
  The loop invariant after the entries \<open>xs\<close>: either nothing was selected and no
  matching entry is newer than -1, or the selected entry is the first one among the
  matching entries of greatest modification time.
\<close>

definition latest_inv ::
  "ucd \<Rightarrow> (ustring \<Rightarrow> rat option) \<Rightarrow> ustring \<Rightarrow> ustring list \<Rightarrow> ustring option \<times> rat \<Rightarrow> bool" where
  "latest_inv db mtime base xs acc =
     (case fst acc of
        None \<Rightarrow> snd acc = -1 \<and>
          (\<forall>j<length xs. wav_match db base (xs ! j) \<longrightarrow>
             (\<forall>m. mtime (xs ! j) = Some m \<longrightarrow> m \<le> -1))
      | Some f \<Rightarrow> -1 < snd acc \<and>
          (\<exists>i<length xs. xs ! i = f \<and> wav_match db base f \<and> mtime f = Some (snd acc) \<and>
             (\<forall>j<length xs. wav_match db base (xs ! j) \<longrightarrow>
                (\<forall>m. mtime (xs ! j) = Some m \<longrightarrow> m \<le> snd acc)) \<and>
             (\<forall>j<i. wav_match db base (xs ! j) \<longrightarrow>
                (\<forall>m. mtime (xs ! j) = Some m \<longrightarrow> m < snd acc))))"

section \<open>Properties of the Unicode tables\<close>

text \<open>
  A plain character has no decomposition, combining class 0 and is no nonspacing mark;
  a settled character is a plain one that the later steps of the normalizers leave
  alone: neither form of the letter yo and none of the deleted punctuation.
\<close>

definition plain :: "ucd \<Rightarrow> nat \<Rightarrow> bool" where
  "plain db c = (canon_decomp db c = [c] \<and> combining db c = 0 \<and> \<not> category_Mn db c)"

definition settled :: "ucd \<Rightarrow> nat \<Rightarrow> bool" where
  "settled db c = (plain db c \<and> c \<noteq> 0x451 \<and> c \<noteq> 0x401 \<and> c \<notin> set punct)"

text \<open>Where the whitespace of a string is, and which.\<close>

definition ws_mark :: "ucd \<Rightarrow> nat \<Rightarrow> nat option" where
  "ws_mark db c = (if isspace db c then Some c else None)"

text \<open>
  What the proofs use of the Unicode character database and of \<open>str.lower\<close>:
  \<^item> a full canonical decomposition consists of characters without decomposition;
  \<^item> the Cyrillic letters ie (U+0435, U+0415) and the space are plain;
  \<^item> on a string of settled characters, \<open>lower\<close> yields settled characters, leaves
    whitespace where and what it is, puts none elsewhere, and changes nothing when
    applied again.
\<close>

definition ucd_wf :: "ucd \<Rightarrow> bool" where
  "ucd_wf db =
     ((\<forall>c. \<forall>d\<in>set (canon_decomp db c). canon_decomp db d = [d])
      \<and> plain db 0x435 \<and> plain db 0x415 \<and> plain db 32
      \<and> (\<forall>t. (\<forall>c\<in>set t. settled db c) \<longrightarrow>
             (\<forall>c\<in>set (str_lower db t). settled db c)
             \<and> map (ws_mark db) (str_lower db t) = map (ws_mark db) t
             \<and> str_lower db (str_lower db t) = str_lower db t))"

text \<open>
  A string whose combining characters (after decomposition) are all nonspacing marks:
  removing the marks then leaves characters of class 0 only. The Unicode database has
  a few spacing marks of non-zero class (such as U+1D165), which this excludes.
\<close>

definition marks_are_Mn :: "ucd \<Rightarrow> ustring \<Rightarrow> bool" where
  "marks_are_Mn db s =
     (\<forall>c\<in>set s. \<forall>d\<in>set (canon_decomp db c). combining db d \<noteq> 0 \<longrightarrow> category_Mn db d)"

text \<open>
  Whitespace in normal form: every whitespace character is a space followed by a
  character that is not whitespace, and the string neither starts nor ends with one.
\<close>

fun ws_tidy :: "(nat \<Rightarrow> bool) \<Rightarrow> ustring \<Rightarrow> bool" where
  "ws_tidy sp [] = True"
| "ws_tidy sp [c] = (sp c \<longrightarrow> c = 32)"
| "ws_tidy sp (c # d # t) = ((sp c \<longrightarrow> c = 32 \<and> \<not> sp d) \<and> ws_tidy sp (d # t))"

definition tidy :: "(nat \<Rightarrow> bool) \<Rightarrow> ustring \<Rightarrow> bool" where
  "tidy sp t = (ws_tidy sp t \<and> (t \<noteq> [] \<longrightarrow> \<not> sp (hd t) \<and> \<not> sp (last t)))"

text \<open>The steps that both normalizers share, after the decomposition's input is fixed.\<close>

definition core :: "ucd \<Rightarrow> ustring \<Rightarrow> ustring" where
  "core db s =
     strip_punct (replace_char 0x401 0x415 (replace_char 0x451 0x435
       (filter (\<lambda>c. \<not> category_Mn db c) (normalize_NFD db s))))"

section \<open>Concrete inputs\<close>

definition two_names :: folder where
  "two_names = holding [ascii ''Exact-Name.mp3'', ascii ''exactname.mp3'']"

definition mixed_folder :: folder where
  "mixed_folder = holding [ascii ''ab.txt'', ascii ''A B.MP3'']"

definition empty_folder :: folder where
  "empty_folder = holding []"





text \<open>
  The word of generate\_audio.py for "four", with the combining acute accent U+0301
  after its fourth letter, and the two file names of the scenario.
\<close>

definition chetyre_stressed :: ustring where
  "chetyre_stressed = [0x447, 0x435, 0x442, 0x44B, 0x301, 0x440, 0x435]"

definition chetyre_mp3 :: ustring where
  "chetyre_mp3 = [0x447, 0x435, 0x442, 0x44B, 0x440, 0x435] @ ascii ''.mp3''"

definition drugoe_mp3 :: ustring where
  "drugoe_mp3 = [0x434, 0x440, 0x443, 0x433, 0x43E, 0x435] @ ascii ''.mp3''"

text \<open>
  A phrase with leading and doubled spaces, a capital yo, a comma, the stressed word
  and an exclamation mark.
\<close>

definition hedgehog_four :: ustring where
  "hedgehog_four = [32, 0x401, 0x436, 44, 32, 32] @ chetyre_stressed @ [33, 32]"

definition tie_folder :: folder where
  "tie_folder = holding [ascii ''a1.wav'', ascii ''a2.wav'']"

definition tie_mtime :: "ustring \<Rightarrow> rat option" where
  "tie_mtime fname = Some 5"

definition takes_folder :: folder where
  "takes_folder = holding [ascii ''hello_your_voice.wav'', ascii ''Hello_your_voice.wav'']"

definition takes_mtime :: "ustring \<Rightarrow> rat option" where
  "takes_mtime fname = (if fname = ascii ''hello_your_voice.wav'' then Some 9 else Some 5)"

section \<open>Evaluation\<close>

lemmas eval_defs = sanitize_filename_def norm_base_def normalize_NFD_def canon_order_def
  replace_char_def strip_punct_def punct_def strip_ws_def splitext_def
  remove_spaces_def endswith_def startswith_def ascii_def Let_def suffix_to_prefix
  ucd_russian_def russian_decomp_def russian_mark_def ascii_space_def russian_lower_def

lemmas resolver_defs = find_audio_path_def play_audio_path_def hint_path_def
  listdir_def mp3_candidates_def scan_normalized_def scan_loose_def holding_def


section \<open>Decomposition and canonical order\<close>

lemma set_canon_insert: "set (canon_insert cc x ys) = insert x (set ys)"
  by (induction ys) auto

lemma set_canon_order: "set (canon_order cc s) = set s"
  by (induction s) (simp_all add: canon_order_def set_canon_insert)

lemma set_normalize_NFD: "set (normalize_NFD db s) = (\<Union>c\<in>set s. set (canon_decomp db c))"
  by (simp add: normalize_NFD_def set_canon_order)

lemma canon_order_fixed: "(\<forall>c\<in>set s. cc c = 0) \<Longrightarrow> canon_order cc s = s"
proof (induction s)
  case Nil
  show ?case by (simp add: canon_order_def)
next
  case (Cons x s)
  then have "canon_order cc s = s" by simp
  then have "canon_order cc (x # s) = canon_insert cc x s"
    by (simp add: canon_order_def)
  also have "\<dots> = x # s"
    using Cons.prems by (cases s) simp_all
  finally show ?case .
qed

lemma concat_decomp_fixed:
  "(\<forall>c\<in>set s. canon_decomp db c = [c]) \<Longrightarrow> concat (map (canon_decomp db) s) = s"
  by (induction s) simp_all

lemma normalize_NFD_fixed:
  assumes "\<forall>c\<in>set s. plain db c"
  shows "normalize_NFD db s = s"
proof -
  from assms have "concat (map (canon_decomp db) s) = s"
    by (intro concat_decomp_fixed) (simp add: plain_def)
  moreover from assms have "canon_order (combining db) s = s"
    by (intro canon_order_fixed) (simp add: plain_def)
  ultimately show ?thesis by (simp add: normalize_NFD_def)
qed

lemma set_collapse_ws: "set (collapse_ws sp s) \<subseteq> insert 32 (set s)"
proof (induction sp s rule: collapse_ws.induct)
  case (1 sp)
  show ?case by simp
next
  case (2 sp c cs)
  show ?case
  proof (cases "sp c")
    case True
    with 2 have "set (collapse_ws sp (dropWhile sp cs)) \<subseteq> insert 32 (set (dropWhile sp cs))"
      by simp
    moreover have "set (dropWhile sp cs) \<subseteq> set cs"
      by (rule set_dropWhileD [THEN subsetI])
    ultimately show ?thesis using True by auto
  next
    case False
    with 2 show ?thesis by auto
  qed
qed

lemma set_strip_ws: "set (strip_ws sp s) \<subseteq> set s"
proof -
  have "set (dropWhile sp (rev (dropWhile sp s))) \<subseteq> set (rev (dropWhile sp s))"
    by (rule set_dropWhileD [THEN subsetI])
  moreover have "set (dropWhile sp s) \<subseteq> set s"
    by (rule set_dropWhileD [THEN subsetI])
  ultimately show ?thesis by (auto simp: strip_ws_def)
qed

lemma collapse_head:
  "s = [] \<or> \<not> sp (hd s) \<Longrightarrow> collapse_ws sp s = [] \<or> \<not> sp (hd (collapse_ws sp s))"
  by (cases s) auto

lemma ws_tidy_Cons:
  "ws_tidy sp (c # t) = ((sp c \<longrightarrow> c = 32 \<and> (t = [] \<or> \<not> sp (hd t))) \<and> ws_tidy sp t)"
  by (cases t) auto

lemma dropWhile_head: "dropWhile P xs = [] \<or> \<not> P (hd (dropWhile P xs))"
  using hd_dropWhile [of P xs] by blast

lemma collapse_ws_tidy: "ws_tidy sp (collapse_ws sp s)"
proof (induction sp s rule: collapse_ws.induct)
  case (1 sp)
  show ?case by simp
next
  case (2 sp c cs)
  show ?case
  proof (cases "sp c")
    case True
    with 2 have ih: "ws_tidy sp (collapse_ws sp (dropWhile sp cs))" by simp
    have "collapse_ws sp (dropWhile sp cs) = [] \<or> \<not> sp (hd (collapse_ws sp (dropWhile sp cs)))"
      using collapse_head [of "dropWhile sp cs" sp] dropWhile_head [of sp cs] by blast
    with ih True show ?thesis by (simp add: ws_tidy_Cons)
  next
    case False
    with 2 show ?thesis by (simp add: ws_tidy_Cons)
  qed
qed

lemma collapse_ws_fixed: "ws_tidy sp t \<Longrightarrow> collapse_ws sp t = t"
proof (induction t)
  case Nil
  show ?case by simp
next
  case (Cons c t)
  from Cons.prems have t: "ws_tidy sp t" by (simp add: ws_tidy_Cons)
  show ?case
  proof (cases "sp c")
    case True
    with Cons.prems have c: "c = 32" and h: "t = [] \<or> \<not> sp (hd t)"
      by (simp_all add: ws_tidy_Cons)
    from h have "dropWhile sp t = t" by (cases t) auto
    with True c Cons.IH [OF t] show ?thesis by simp
  next
    case False
    with Cons.IH [OF t] show ?thesis by simp
  qed
qed

lemma ws_tidy_append: "ws_tidy sp (xs @ ys) \<Longrightarrow> ws_tidy sp xs \<and> ws_tidy sp ys"
proof (induction xs)
  case Nil
  then show ?case by simp
next
  case (Cons x xs)
  then show ?case by (cases xs) (auto simp: ws_tidy_Cons)
qed

lemma strip_ws_split:
  "\<exists>a b. s = a @ strip_ws sp s @ b"
proof -
  have 1: "s = takeWhile sp s @ dropWhile sp s" by simp
  let ?u = "rev (dropWhile sp s)"
  have "?u = takeWhile sp ?u @ dropWhile sp ?u" by simp
  then have "rev ?u = rev (dropWhile sp ?u) @ rev (takeWhile sp ?u)"
    by (metis rev_append)
  then have 2: "dropWhile sp s = strip_ws sp s @ rev (takeWhile sp ?u)"
    by (simp add: strip_ws_def)
  from 1 2 have "s = takeWhile sp s @ strip_ws sp s @ rev (takeWhile sp ?u)" by simp
  then show ?thesis by blast
qed

lemma strip_ws_tidy: "ws_tidy sp s \<Longrightarrow> ws_tidy sp (strip_ws sp s)"
proof -
  assume a: "ws_tidy sp s"
  from strip_ws_split [of s sp] obtain x y where "s = x @ strip_ws sp s @ y" by blast
  with a have "ws_tidy sp (x @ strip_ws sp s @ y)" by simp
  then show ?thesis using ws_tidy_append by blast
qed

lemma strip_ws_ends:
  "strip_ws sp s \<noteq> [] \<Longrightarrow> \<not> sp (hd (strip_ws sp s)) \<and> \<not> sp (last (strip_ws sp s))"
proof -
  assume ne: "strip_ws sp s \<noteq> []"
  let ?u = "dropWhile sp s"
  let ?v = "dropWhile sp (rev ?u)"
  from ne have v: "?v \<noteq> []" by (simp add: strip_ws_def)
  have u: "?u \<noteq> []"
  proof
    assume "?u = []"
    then have "?v = []" by (simp only: rev.simps dropWhile.simps)
    with v show False by simp
  qed
  from v have "\<not> sp (hd ?v)" using hd_dropWhile by blast
  then have l: "\<not> sp (last (strip_ws sp s))"
    using v by (simp add: strip_ws_def last_rev)
  have "rev ?u = takeWhile sp (rev ?u) @ ?v" by simp
  then have "last (rev ?u) = last ?v" using v by (metis last_appendR)
  then have "hd ?u = last ?v" using u by (simp add: last_rev)
  moreover have "\<not> sp (hd ?u)" using u hd_dropWhile by blast
  ultimately have "\<not> sp (hd (strip_ws sp s))"
    using v by (simp add: strip_ws_def hd_rev)
  with l show ?thesis by simp
qed

lemma strip_ws_fixed:
  assumes "t \<noteq> [] \<longrightarrow> \<not> sp (hd t) \<and> \<not> sp (last t)"
  shows "strip_ws sp t = t"
proof (cases t)
  case Nil
  then show ?thesis by (simp add: strip_ws_def)
next
  case (Cons c cs)
  then have tne: "t \<noteq> []" by simp
  with assms have h: "\<not> sp (hd t)" and l: "\<not> sp (last t)" by simp_all
  from h tne have 1: "dropWhile sp t = t" by (cases t) simp_all
  from l tne have "\<not> sp (hd (rev t))" by (simp add: hd_rev)
  with tne have 2: "dropWhile sp (rev t) = rev t" by (cases "rev t") simp_all
  from 1 2 show ?thesis by (simp add: strip_ws_def)
qed

lemma tidy_strip_collapse: "tidy sp (strip_ws sp (collapse_ws sp s))"
  using strip_ws_tidy [OF collapse_ws_tidy, of sp s] strip_ws_ends [of sp "collapse_ws sp s"]
  by (simp add: tidy_def)

lemma tidy_fixed: "tidy sp t \<Longrightarrow> strip_ws sp (collapse_ws sp t) = t"
  by (simp add: tidy_def collapse_ws_fixed strip_ws_fixed)

section \<open>The shared steps of the normalizers\<close>

lemma in_replace_char:
  "c \<in> set (replace_char a b xs) \<Longrightarrow> a \<noteq> b \<Longrightarrow> c \<noteq> a \<and> (c = b \<or> c \<in> set xs)"
  by (auto simp: replace_char_def split: if_splits)

lemma replace_char_absent: "a \<notin> set xs \<Longrightarrow> replace_char a b xs = xs"
  by (induction xs) (simp_all add: replace_char_def)

lemma strip_punct_fixed: "(\<forall>c\<in>set xs. c \<notin> set punct) \<Longrightarrow> strip_punct xs = xs"
  by (simp add: strip_punct_def)

lemma rfind_absent: "c \<notin> set p \<Longrightarrow> rfind p c = -1"
  by (induction p) (simp_all add: Let_def)

lemma rfind_lower: "-1 \<le> rfind p c"
  by (induction p) (simp_all add: Let_def)

lemma splitext_no_dot: "46 \<notin> set p \<Longrightarrow> splitext p = (p, [])"
  using rfind_lower [of p 47] by (simp add: splitext_def rfind_absent)

lemma set_fst_splitext: "set (fst (splitext p)) \<subseteq> set p"
  by (auto simp: splitext_def Let_def dest: in_set_takeD)

lemma sanitize_core:
  "sanitize_filename db s =
     strip_ws (isspace db) (collapse_ws (isspace db)
       (replace_char 92 45 (replace_char 47 45 (core db s))))"
  by (simp add: sanitize_filename_def core_def)

lemma norm_base_core:
  "norm_base db s =
     str_lower db (strip_ws (isspace db) (collapse_ws (isspace db)
       (core db (fst (splitext s)))))"
  by (simp add: norm_base_def core_def)

lemma punct_46: "46 \<in> set punct"
  by (simp add: punct_def)

lemma core_settled:
  assumes wf: "ucd_wf db" and m: "marks_are_Mn db s"
  shows "\<forall>c\<in>set (core db s). settled db c"
proof
  fix c assume c: "c \<in> set (core db s)"
  let ?a = "filter (\<lambda>c. \<not> category_Mn db c) (normalize_NFD db s)"
  from c have np: "c \<notin> set punct"
    and c1: "c \<in> set (replace_char 0x401 0x415 (replace_char 0x451 0x435 ?a))"
    by (simp_all add: core_def strip_punct_def)
  from in_replace_char [OF c1] have n1: "c \<noteq> 0x401"
    and c2: "c = 0x415 \<or> c \<in> set (replace_char 0x451 0x435 ?a)" by simp_all
  have a_plain: "plain db x" if "x \<in> set ?a" for x
  proof -
    from that have nm: "\<not> category_Mn db x" and "x \<in> set (normalize_NFD db s)" by simp_all
    then obtain y where y: "y \<in> set s" "x \<in> set (canon_decomp db y)"
      by (auto simp: set_normalize_NFD)
    from wf y have "canon_decomp db x = [x]" by (auto simp: ucd_wf_def)
    moreover from m y nm have "combining db x = 0" by (auto simp: marks_are_Mn_def)
    ultimately show ?thesis using nm by (simp add: plain_def)
  qed
  from wf have e: "plain db 0x435" "plain db 0x415" by (simp_all add: ucd_wf_def)
  from c2 have "plain db c \<and> c \<noteq> 0x451"
  proof
    assume "c = 0x415"
    with e show ?thesis by simp
  next
    assume "c \<in> set (replace_char 0x451 0x435 ?a)"
    from in_replace_char [OF this] have "c \<noteq> 0x451" and "c = 0x435 \<or> c \<in> set ?a"
      by simp_all
    with e a_plain show ?thesis by blast
  qed
  with n1 np show "settled db c" by (simp add: settled_def)
qed

lemma settled_core_fixed:
  assumes "\<forall>c\<in>set t. settled db c"
  shows "core db t = t"
proof -
  from assms have p: "\<forall>c\<in>set t. plain db c" by (simp add: settled_def)
  from p have 1: "normalize_NFD db t = t" by (rule normalize_NFD_fixed)
  from p have 2: "filter (\<lambda>c. \<not> category_Mn db c) t = t" by (simp add: plain_def)
  from assms have "0x451 \<notin> set t" "0x401 \<notin> set t" by (auto simp: settled_def)
  then have 3: "replace_char 0x401 0x415 (replace_char 0x451 0x435 t) = t"
    by (simp add: replace_char_absent)
  from assms have 4: "strip_punct t = t" by (simp add: strip_punct_fixed settled_def)
  from 1 2 3 4 show ?thesis by (simp add: core_def)
qed

lemma norm_base_fixed:
  assumes s: "\<forall>c\<in>set t. settled db c" and t: "tidy (isspace db) t" and l: "str_lower db t = t"
  shows "norm_base db t = t"
proof -
  from s punct_46 have "46 \<notin> set t" by (auto simp: settled_def)
  then have "fst (splitext t) = t" by (simp add: splitext_no_dot)
  with settled_core_fixed [OF s] tidy_fixed [OF t] l show ?thesis
    by (simp add: norm_base_core)
qed

lemma sanitize_fixed:
  assumes s: "\<forall>c\<in>set t. settled db c" and t: "tidy (isspace db) t"
    and n: "47 \<notin> set t" "92 \<notin> set t"
  shows "sanitize_filename db t = t"
  using settled_core_fixed [OF s] tidy_fixed [OF t] n
  by (simp add: sanitize_core replace_char_absent)

lemma ws_tidy_nth:
  "ws_tidy sp t \<longleftrightarrow>
     (\<forall>i<length t. sp (t ! i) \<longrightarrow> t ! i = 32 \<and> (Suc i < length t \<longrightarrow> \<not> sp (t ! Suc i)))"
proof (induction sp t rule: ws_tidy.induct)
  case (1 sp)
  show ?case by simp
next
  case (2 sp c)
  show ?case by simp
next
  case (3 sp c d t)
  show ?case
    unfolding ws_tidy.simps(3) "3.IH" by (simp add: All_less_Suc2)
qed

lemma ws_mark_eq:
  "ws_mark db x = ws_mark db y \<Longrightarrow> isspace db x = isspace db y \<and> (isspace db x \<longrightarrow> x = y)"
  by (auto simp: ws_mark_def split: if_splits)

lemma marks_nth:
  assumes "map (ws_mark db) a = map (ws_mark db) b" and "i < length b"
  shows "isspace db (a ! i) = isspace db (b ! i) \<and> (isspace db (a ! i) \<longrightarrow> a ! i = b ! i)"
proof -
  from assms(1) have len: "length a = length b" by (rule map_eq_imp_length_eq)
  have "ws_mark db (a ! i) = map (ws_mark db) a ! i"
    using assms(2) len by (simp only: nth_map)
  also have "\<dots> = map (ws_mark db) b ! i" by (simp only: assms(1))
  also have "\<dots> = ws_mark db (b ! i)" using assms(2) by (simp only: nth_map)
  finally show ?thesis by (rule ws_mark_eq)
qed

lemma tidy_marks:
  assumes eq: "map (ws_mark db) a = map (ws_mark db) b" and tb: "tidy (isspace db) b"
  shows "tidy (isspace db) a"
proof -
  from eq have len: "length a = length b" by (rule map_eq_imp_length_eq)
  note nth = marks_nth [OF eq]
  from tb have wb: "\<forall>i<length b. isspace db (b ! i) \<longrightarrow>
        b ! i = 32 \<and> (Suc i < length b \<longrightarrow> \<not> isspace db (b ! Suc i))"
    and eb: "b \<noteq> [] \<longrightarrow> \<not> isspace db (hd b) \<and> \<not> isspace db (last b)"
    unfolding tidy_def ws_tidy_nth by blast+
  have wa: "ws_tidy (isspace db) a"
    unfolding ws_tidy_nth
  proof (intro allI impI)
    fix i assume i: "i < length a" and sp: "isspace db (a ! i)"
    from i len have ib: "i < length b" by simp
    from nth [OF ib] sp have bi: "isspace db (b ! i)" "a ! i = b ! i" by blast+
    from wb ib bi(1)
    have b32: "b ! i = 32" and nxt: "Suc i < length b \<longrightarrow> \<not> isspace db (b ! Suc i)" by blast+
    have "Suc i < length a \<longrightarrow> \<not> isspace db (a ! Suc i)"
    proof
      assume "Suc i < length a"
      with len have sb: "Suc i < length b" by simp
      with nxt nth [OF sb] show "\<not> isspace db (a ! Suc i)" by blast
    qed
    with b32 bi show "a ! i = 32 \<and> (Suc i < length a \<longrightarrow> \<not> isspace db (a ! Suc i))" by simp
  qed
  have ea: "a \<noteq> [] \<longrightarrow> \<not> isspace db (hd a) \<and> \<not> isspace db (last a)"
  proof
    assume ne: "a \<noteq> []"
    with len have nb: "b \<noteq> []" by (cases b) simp_all
    from nb have p0: "0 < length b" and pl: "length b - 1 < length b" by simp_all
    note ha = hd_conv_nth [OF ne] and la = last_conv_nth [OF ne]
    note hb = hd_conv_nth [OF nb] and lb = last_conv_nth [OF nb]
    from eb nb have "\<not> isspace db (b ! 0)" "\<not> isspace db (b ! (length b - 1))"
      by (simp_all only: hb lb) blast+
    with nth [OF p0] nth [OF pl] have "\<not> isspace db (a ! 0)" "\<not> isspace db (a ! (length b - 1))"
      by blast+
    then show "\<not> isspace db (hd a) \<and> \<not> isspace db (last a)"
      by (simp add: ha la len)
  qed
  from wa ea show ?thesis by (simp only: tidy_def) 
qed

section \<open>The Russian tables; idempotence\<close>

lemma settled_russian:
  "settled ucd_russian c \<longleftrightarrow>
     c \<noteq> 0x451 \<and> c \<noteq> 0x401 \<and> c \<noteq> 0x439 \<and> c \<noteq> 0x419
     \<and> c \<noteq> 0x301 \<and> c \<noteq> 0x306 \<and> c \<noteq> 0x308 \<and> c \<notin> set punct"
  by (auto simp: settled_def plain_def ucd_russian_def russian_decomp_def russian_mark_def)

lemma russian_lower_cases:
  "russian_lower c = c \<or> (65 \<le> c \<and> c \<le> 90 \<and> russian_lower c = c + 32)
   \<or> (0x410 \<le> c \<and> c \<le> 0x42F \<and> russian_lower c = c + 32)
   \<or> (c = 0x401 \<and> russian_lower c = 0x451)"
  by (simp add: russian_lower_def)

lemma russian_lower_settled:
  assumes "settled ucd_russian c"
  shows "settled ucd_russian (russian_lower c)"
proof -
  from assms have c: "c \<noteq> 0x401" "c \<noteq> 0x419"
    by (simp_all add: settled_russian)
  from russian_lower_cases [of c] c(1)
  consider (same) "russian_lower c = c"
    | (latin) "65 \<le> c" "c \<le> 90" "russian_lower c = c + 32"
    | (cyrillic) "0x410 \<le> c" "c \<le> 0x42F" "russian_lower c = c + 32"
    by blast
  then show ?thesis
  proof cases
    case same
    with assms show ?thesis by simp
  next
    case latin
    then show ?thesis by (simp add: settled_russian punct_def)
  next
    case cyrillic
    with c(2) show ?thesis by (simp add: settled_russian punct_def)
  qed
qed

lemma russian_lower_mark:
  "ws_mark ucd_russian (russian_lower c) = ws_mark ucd_russian c"
  using russian_lower_cases [of c]
  by (auto simp: ws_mark_def ucd_russian_def ascii_space_def)

lemma russian_lower_twice: "russian_lower (russian_lower c) = russian_lower c"
  by (simp add: russian_lower_def)

lemma ucd_russian_wf: "ucd_wf ucd_russian"
proof -
  have d: "\<forall>c. \<forall>d\<in>set (canon_decomp ucd_russian c). canon_decomp ucd_russian d = [d]"
    by (simp add: ucd_russian_def russian_decomp_def)
  have p: "plain ucd_russian 0x435" "plain ucd_russian 0x415" "plain ucd_russian 32"
    by (simp_all add: plain_def ucd_russian_def russian_decomp_def russian_mark_def
        ascii_space_def)
  have l: "(\<forall>c\<in>set (str_lower ucd_russian t). settled ucd_russian c)
      \<and> map (ws_mark ucd_russian) (str_lower ucd_russian t) = map (ws_mark ucd_russian) t
      \<and> str_lower ucd_russian (str_lower ucd_russian t) = str_lower ucd_russian t"
    if "\<forall>c\<in>set t. settled ucd_russian c" for t
  proof -
    have low: "str_lower ucd_russian = map russian_lower" by (simp add: ucd_russian_def)
    from that have "\<forall>c\<in>set (map russian_lower t). settled ucd_russian c"
      by (auto intro: russian_lower_settled)
    moreover have "map (ws_mark ucd_russian) (map russian_lower t) = map (ws_mark ucd_russian) t"
      by (simp add: russian_lower_mark)
    moreover have "map russian_lower (map russian_lower t) = map russian_lower t"
      by (simp add: russian_lower_twice)
    ultimately show ?thesis by (simp only: low) 
  qed
  from d p l show ?thesis unfolding ucd_wf_def by blast
qed

lemma marks_are_Mn_russian: "marks_are_Mn ucd_russian s"
  by (simp add: marks_are_Mn_def ucd_russian_def)

lemma marks_are_Mn_stem: "marks_are_Mn db s \<Longrightarrow> marks_are_Mn db (fst (splitext s))"
  using set_fst_splitext [of s] by (auto simp: marks_are_Mn_def)

lemma settled_output:
  assumes wf: "ucd_wf db" and s: "\<forall>c\<in>set x. settled db c"
  shows "\<forall>c\<in>set (strip_ws (isspace db) (collapse_ws (isspace db) x)). settled db c"
proof
  fix c assume "c \<in> set (strip_ws (isspace db) (collapse_ws (isspace db) x))"
  with set_strip_ws [of "isspace db" "collapse_ws (isspace db) x"] set_collapse_ws [of "isspace db" x]
  have "c = 32 \<or> c \<in> set x" by blast
  moreover from wf have "settled db 32" by (simp add: ucd_wf_def settled_def punct_def)
  ultimately show "settled db c" using s by blast
qed

lemma norm_base_idem:
  assumes wf: "ucd_wf db" and m: "marks_are_Mn db s"
  shows "norm_base db (norm_base db s) = norm_base db s"
proof -
  let ?t = "strip_ws (isspace db) (collapse_ws (isspace db) (core db (fst (splitext s))))"
  have nb: "norm_base db s = str_lower db ?t" by (rule norm_base_core)
  have st: "\<forall>c\<in>set ?t. settled db c"
    by (rule settled_output [OF wf core_settled [OF wf marks_are_Mn_stem [OF m]]])
  have tt: "tidy (isspace db) ?t" by (rule tidy_strip_collapse)
  from wf st have low: "\<forall>c\<in>set (str_lower db ?t). settled db c"
    and mk: "map (ws_mark db) (str_lower db ?t) = map (ws_mark db) ?t"
    and twice: "str_lower db (str_lower db ?t) = str_lower db ?t"
    unfolding ucd_wf_def by blast+
  from tidy_marks [OF mk tt] have "tidy (isspace db) (str_lower db ?t)" .
  from norm_base_fixed [OF low this twice] show ?thesis by (simp only: nb)
qed

lemma sanitize_idem:
  assumes wf: "ucd_wf db" and m: "marks_are_Mn db s"
    and h: "45 \<notin> set (sanitize_filename db s)"
  shows "sanitize_filename db (sanitize_filename db s) = sanitize_filename db s"
proof -
  let ?x = "replace_char 92 45 (replace_char 47 45 (core db s))"
  let ?t = "strip_ws (isspace db) (collapse_ws (isspace db) ?x)"
  have sf: "sanitize_filename db s = ?t" by (rule sanitize_core)
  have x: "\<forall>c\<in>set ?x. (settled db c \<or> c = 45) \<and> c \<noteq> 47 \<and> c \<noteq> 92"
  proof
    fix c assume c: "c \<in> set ?x"
    from in_replace_char [OF c] have 1: "c \<noteq> 92"
      and c2: "c = 45 \<or> c \<in> set (replace_char 47 45 (core db s))" by simp_all
    from c2 have "c \<noteq> 47 \<and> (c = 45 \<or> c \<in> set (core db s))"
    proof
      assume "c = 45" then show ?thesis by simp
    next
      assume "c \<in> set (replace_char 47 45 (core db s))"
      from in_replace_char [OF this] show ?thesis by simp
    qed
    with 1 core_settled [OF wf m] show "(settled db c \<or> c = 45) \<and> c \<noteq> 47 \<and> c \<noteq> 92"
      by blast
  qed
  have sub: "set ?t \<subseteq> insert 32 (set ?x)"
    using set_strip_ws [of "isspace db" "collapse_ws (isspace db) ?x"]
      set_collapse_ws [of "isspace db" ?x] by blast
  from wf have s32: "settled db 32" by (simp add: ucd_wf_def settled_def punct_def)
  have st: "\<forall>c\<in>set ?t. settled db c"
  proof
    fix c assume c: "c \<in> set ?t"
    with h sf have "c \<noteq> 45" by auto
    moreover from c sub have "c = 32 \<or> c \<in> set ?x" by blast
    ultimately show "settled db c" using x s32 by blast
  qed
  have n: "47 \<notin> set ?t" "92 \<notin> set ?t"
    using sub x by auto
  have tt: "tidy (isspace db) ?t" by (rule tidy_strip_collapse)
  from sanitize_fixed [OF st tt n] show ?thesis by (simp only: sf)
qed

section \<open>The normalizers: idempotence, path separators, shape of the result\<close>


text \<open>
  C1, as the code has it. Given the properties \<open>ucd_wf\<close> of the Unicode tables, and
  for a string whose combining characters are all nonspacing marks: \<open>norm_base\<close> is
  idempotent; \<open>sanitize_filename\<close> is idempotent whenever its result holds no hyphen,
  that is whenever no slash or backslash was left to replace. (A hyphen of the result
  comes from a path separator and is deleted as punctuation by the next application.)
\<close>

theorem normalizers_idempotent:
  assumes "ucd_wf db" and "marks_are_Mn db s"
  shows "norm_base db (norm_base db s) = norm_base db s
       \<and> (45 \<notin> set (sanitize_filename db s) \<longrightarrow>
            sanitize_filename db (sanitize_filename db s) = sanitize_filename db s)"
  using norm_base_idem [OF assms] sanitize_idem [OF assms] by blast

lemma hedgehog_eval:
  "sanitize_filename ucd_russian hedgehog_four
   = [0x415, 0x436, 32, 0x447, 0x435, 0x442, 0x44B, 0x440, 0x435]"
  "norm_base ucd_russian hedgehog_four
   = [0x435, 0x436, 32, 0x447, 0x435, 0x442, 0x44B, 0x440, 0x435]"
  by (simp_all add: hedgehog_four_def chetyre_stressed_def eval_defs)

theorem normalizers_idempotent_witness:
  "norm_base ucd_russian (norm_base ucd_russian hedgehog_four) = norm_base ucd_russian hedgehog_four
   \<and> sanitize_filename ucd_russian (sanitize_filename ucd_russian hedgehog_four)
       = sanitize_filename ucd_russian hedgehog_four
   \<and> sanitize_filename ucd_russian hedgehog_four
       = [0x415, 0x436, 32, 0x447, 0x435, 0x442, 0x44B, 0x440, 0x435]"
proof -
  have h: "45 \<notin> set (sanitize_filename ucd_russian hedgehog_four)"
    by (simp add: hedgehog_eval)
  from normalizers_idempotent [OF ucd_russian_wf marks_are_Mn_russian, of hedgehog_four] h
  show ?thesis by (simp add: hedgehog_eval)
qed

lemma slash_eval:
  "sanitize_filename ucd_russian (ascii ''a/b'') = ascii ''a-b''"
  "sanitize_filename ucd_russian (ascii ''a-b'') = ascii ''ab''"
  "norm_base ucd_russian (ascii ''a/b'') = ascii ''a/b''"
  "norm_base ucd_russian [97, 92, 98] = [97, 92, 98]"
  "sanitize_filename ucd_russian [97, 92, 98] = ascii ''a-b''"
  "core ucd_russian (ascii ''a/b'') = ascii ''a/b''"
  by (simp_all add: core_def eval_defs)

lemma musical_eval:
  "norm_base ucd_musical [0x1D16D, 0x941, 0x1D165] = [0x1D16D, 0x1D165]"
  "norm_base ucd_musical [0x1D16D, 0x1D165] = [0x1D165, 0x1D16D]"
  by (simp_all add: ucd_musical_def norm_base_def normalize_NFD_def canon_order_def
      replace_char_def strip_punct_def punct_def strip_ws_def splitext_def ascii_space_def)

text \<open>
  C1 as the specification states it fails: sanitizing "a/b" gives "a-b", and
  sanitizing that gives "ab". For \<open>norm_base\<close> it fails only outside the strings of
  the theorem: two spacing marks of classes 226 and 216 kept apart by a nonspacing
  mark of class 0 are reordered by the second decomposition, once the first
  application has removed the mark between them.
\<close>

theorem idempotence_counterexample:
  "sanitize_filename ucd_russian (sanitize_filename ucd_russian (ascii ''a/b''))
     \<noteq> sanitize_filename ucd_russian (ascii ''a/b'')
   \<and> norm_base ucd_musical (norm_base ucd_musical [0x1D16D, 0x941, 0x1D165])
     \<noteq> norm_base ucd_musical [0x1D16D, 0x941, 0x1D165]"
  by (simp add: slash_eval musical_eval) (simp add: ascii_def)

lemma sanitize_sep_map:
  "sanitize_filename db s =
     strip_ws (isspace db) (collapse_ws (isspace db)
       (map (\<lambda>c. if c = 47 \<or> c = 92 then 45 else c) (core db s)))"
proof -
  have "replace_char 92 45 (replace_char 47 45 x) = map (\<lambda>c. if c = 47 \<or> c = 92 then 45 else c) x"
    for x by (induction x) (simp_all add: replace_char_def)
  then show ?thesis by (simp only: sanitize_core)
qed

lemma sanitize_chars:
  assumes "c \<in> set (sanitize_filename db s)"
  shows "c \<noteq> 47 \<and> c \<noteq> 92 \<and> (c = 32 \<or> c = 45 \<or> c \<in> set (core db s))"
proof -
  let ?x = "replace_char 92 45 (replace_char 47 45 (core db s))"
  from assms set_strip_ws [of "isspace db" "collapse_ws (isspace db) ?x"]
    set_collapse_ws [of "isspace db" ?x]
  have "c = 32 \<or> c \<in> set ?x" unfolding sanitize_core by blast
  then show ?thesis
  proof
    assume "c = 32" then show ?thesis by simp
  next
    assume c: "c \<in> set ?x"
    from in_replace_char [OF c] have 1: "c \<noteq> 92"
      and c2: "c = 45 \<or> c \<in> set (replace_char 47 45 (core db s))" by simp_all
    from c2 have "c \<noteq> 47 \<and> (c = 45 \<or> c \<in> set (core db s))"
    proof
      assume "c = 45" then show ?thesis by simp
    next
      assume "c \<in> set (replace_char 47 45 (core db s))"
      from in_replace_char [OF this] show ?thesis by simp
    qed
    with 1 show ?thesis by blast
  qed
qed

lemma sanitize_hyphen_origin:
  assumes "45 \<in> set (sanitize_filename db s)"
  shows "47 \<in> set (core db s) \<or> 92 \<in> set (core db s)"
proof (rule ccontr)
  assume "\<not> (47 \<in> set (core db s) \<or> 92 \<in> set (core db s))"
  then have "replace_char 92 45 (replace_char 47 45 (core db s)) = core db s"
    by (simp add: replace_char_absent)
  then have sf: "sanitize_filename db s
                 = strip_ws (isspace db) (collapse_ws (isspace db) (core db s))"
    by (simp only: sanitize_core)
  from assms set_strip_ws [of "isspace db" "collapse_ws (isspace db) (core db s)"]
    set_collapse_ws [of "isspace db" "core db s"]
  have "45 \<in> set (core db s)" unfolding sf by auto
  then show False by (simp add: core_def strip_punct_def punct_def)
qed

lemma count_dropWhile_le: "length (filter P (dropWhile sp xs)) \<le> length (filter P xs)"
  by (induction xs) simp_all

lemma count_dropWhile_eq:
  "(\<forall>x. P x \<longrightarrow> \<not> sp x) \<Longrightarrow> length (filter P (dropWhile sp xs)) = length (filter P xs)"
  by (induction xs) auto

lemma count_collapse_le:
  "\<not> P 32 \<Longrightarrow> length (filter P (collapse_ws sp xs)) \<le> length (filter P xs)"
proof (induction sp xs rule: collapse_ws.induct)
  case (1 sp)
  show ?case by simp
next
  case (2 sp c cs)
  show ?case
  proof (cases "sp c")
    case True
    with 2 have "length (filter P (collapse_ws sp (dropWhile sp cs)))
                 \<le> length (filter P (dropWhile sp cs))" by simp
    also have "\<dots> \<le> length (filter P cs)" by (rule count_dropWhile_le)
    finally show ?thesis using True "2.prems" by simp
  next
    case False
    with 2 show ?thesis by simp
  qed
qed

lemma count_collapse_eq:
  assumes "\<not> P 32" and "\<forall>x. P x \<longrightarrow> \<not> sp x"
  shows "length (filter P (collapse_ws sp xs)) = length (filter P xs)"
  using assms
proof (induction sp xs rule: collapse_ws.induct)
  case (1 sp)
  show ?case by simp
next
  case (2 sp c cs)
  show ?case
  proof (cases "sp c")
    case True
    with 2 count_dropWhile_eq [of P sp cs]
    have "length (filter P (collapse_ws sp (dropWhile sp cs))) = length (filter P cs)"
      by simp
    moreover from True "2.prems" have "\<not> P c" by blast
    ultimately show ?thesis using True "2.prems" by simp
  next
    case False
    with 2 show ?thesis by simp
  qed
qed

lemma count_rev: "length (filter P (rev xs)) = length (filter P xs)"
  by (simp add: rev_filter [symmetric])

lemma count_strip_le: "length (filter P (strip_ws sp xs)) \<le> length (filter P xs)"
proof -
  have "length (filter P (strip_ws sp xs)) = length (filter P (dropWhile sp (rev (dropWhile sp xs))))"
    by (simp add: strip_ws_def count_rev)
  also have "\<dots> \<le> length (filter P (rev (dropWhile sp xs)))" by (rule count_dropWhile_le)
  also have "\<dots> = length (filter P (dropWhile sp xs))" by (rule count_rev)
  also have "\<dots> \<le> length (filter P xs)" by (rule count_dropWhile_le)
  finally show ?thesis .
qed

lemma count_strip_eq:
  assumes "\<forall>x. P x \<longrightarrow> \<not> sp x"
  shows "length (filter P (strip_ws sp xs)) = length (filter P xs)"
proof -
  have "length (filter P (strip_ws sp xs)) = length (filter P (dropWhile sp (rev (dropWhile sp xs))))"
    by (simp add: strip_ws_def count_rev)
  also have "\<dots> = length (filter P (rev (dropWhile sp xs)))"
    by (rule count_dropWhile_eq [OF assms])
  also have "\<dots> = length (filter P (dropWhile sp xs))" by (rule count_rev)
  also have "\<dots> = length (filter P xs)" by (rule count_dropWhile_eq [OF assms])
  finally show ?thesis .
qed

lemma core_no_punct: "c \<in> set punct \<Longrightarrow> c \<notin> set (core db s)"
  by (simp add: core_def strip_punct_def)

lemma count_hyphens_mapped:
  assumes "45 \<notin> set x"
  shows "length (filter (\<lambda>c. c = 45) (map (\<lambda>c. if c = 47 \<or> c = 92 then 45 else c) x))
       = length (filter (\<lambda>c. c = 47 \<or> c = 92) x)"
  using assms by (induction x) auto

lemma sanitize_hyphen_count:
  "length (filter (\<lambda>c. c = 45) (sanitize_filename db s))
   \<le> length (filter (\<lambda>c. c = 47 \<or> c = 92) (core db s))"
proof -
  let ?m = "map (\<lambda>c. if c = 47 \<or> c = 92 then 45 else c) (core db s)"
  have "45 \<notin> set (core db s)" by (rule core_no_punct) (simp add: punct_def)
  then have m: "length (filter (\<lambda>c. c = 45) ?m) = length (filter (\<lambda>c. c = 47 \<or> c = 92) (core db s))"
    by (rule count_hyphens_mapped)
  have "length (filter (\<lambda>c. c = 45) (sanitize_filename db s))
        \<le> length (filter (\<lambda>c. c = 45) (collapse_ws (isspace db) ?m))"
    unfolding sanitize_sep_map by (rule count_strip_le)
  also have "\<dots> \<le> length (filter (\<lambda>c. c = 45) ?m)"
    by (rule count_collapse_le) simp
  finally show ?thesis using m by simp
qed

lemma norm_stem_no_hyphen:
  "45 \<notin> set (strip_ws (isspace db) (collapse_ws (isspace db) (core db x)))"
proof
  assume "45 \<in> set (strip_ws (isspace db) (collapse_ws (isspace db) (core db x)))"
  with set_strip_ws [of "isspace db" "collapse_ws (isspace db) (core db x)"]
    set_collapse_ws [of "isspace db" "core db x"]
  have "45 \<in> set (core db x)" by auto
  moreover have "45 \<notin> set (core db x)" by (rule core_no_punct) (simp add: punct_def)
  ultimately show False by simp
qed

lemma norm_stem_keeps:
  assumes "\<not> isspace db k" and "k \<noteq> 32"
  shows "length (filter (\<lambda>c. c = k) (strip_ws (isspace db) (collapse_ws (isspace db) x)))
       = length (filter (\<lambda>c. c = k) x)"
proof -
  from assms(1) have sp: "\<forall>c. c = k \<longrightarrow> \<not> isspace db c" by simp
  have "length (filter (\<lambda>c. c = k) (strip_ws (isspace db) (collapse_ws (isspace db) x)))
        = length (filter (\<lambda>c. c = k) (collapse_ws (isspace db) x))"
    by (rule count_strip_eq [OF sp])
  also have "\<dots> = length (filter (\<lambda>c. c = k) x)"
    using assms(2) by (intro count_collapse_eq sp) simp
  finally show ?thesis .
qed

lemma norm_base_settled:
  assumes wf: "ucd_wf db" and m: "marks_are_Mn db s"
  shows "\<forall>c\<in>set (norm_base db s). settled db c"
proof -
  let ?t = "strip_ws (isspace db) (collapse_ws (isspace db) (core db (fst (splitext s))))"
  have st: "\<forall>c\<in>set ?t. settled db c"
    by (rule settled_output [OF wf core_settled [OF wf marks_are_Mn_stem [OF m]]])
  with wf have "\<forall>c\<in>set (str_lower db ?t). settled db c"
    unfolding ucd_wf_def by blast
  then show ?thesis by (simp only: norm_base_core)
qed

text \<open>
  C4, as the code has it. \<open>sanitize_filename\<close> maps the slash and the backslash to the
  hyphen, after the punctuation is deleted and before the whitespace is collapsed: its
  result holds neither, and holds a hyphen only where a path separator was.
  \<open>norm_base\<close> has no such step. With \<open>stem\<close> the string after its punctuation
  step (\<open>os.path.splitext\<close> has dropped the extension before) and \<open>t\<close> the string
  that goes into \<open>lower()\<close>: \<open>t\<close> holds no hyphen, and as many slashes and as many
  backslashes as \<open>stem\<close>, the two not being whitespace. Under the properties of the
  tables, and for a string whose combining characters are all nonspacing marks, the
  result of \<open>norm_base\<close> holds no hyphen either.
\<close>

theorem sanitize_replaces_separators:
  "sanitize_filename db s =
     strip_ws (isspace db) (collapse_ws (isspace db)
       (map (\<lambda>c. if c = 47 \<or> c = 92 then 45 else c) (core db s)))
   \<and> 47 \<notin> set (sanitize_filename db s) \<and> 92 \<notin> set (sanitize_filename db s)
   \<and> (45 \<in> set (sanitize_filename db s) \<longrightarrow> 47 \<in> set (core db s) \<or> 92 \<in> set (core db s))
   \<and> (let stem = core db (fst (splitext s));
          t = strip_ws (isspace db) (collapse_ws (isspace db) stem)
      in norm_base db s = str_lower db t
         \<and> 45 \<notin> set t
         \<and> (\<not> isspace db 47 \<longrightarrow>
              length (filter (\<lambda>c. c = 47) t) = length (filter (\<lambda>c. c = 47) stem))
         \<and> (\<not> isspace db 92 \<longrightarrow>
              length (filter (\<lambda>c. c = 92) t) = length (filter (\<lambda>c. c = 92) stem)))
   \<and> (ucd_wf db \<and> marks_are_Mn db s \<longrightarrow> 45 \<notin> set (norm_base db s))"
proof -
  have n: "ucd_wf db \<and> marks_are_Mn db s \<longrightarrow> 45 \<notin> set (norm_base db s)"
  proof
    assume a: "ucd_wf db \<and> marks_are_Mn db s"
    show "45 \<notin> set (norm_base db s)"
    proof
      assume "45 \<in> set (norm_base db s)"
      with norm_base_settled [of db s] a have "settled db 45" by blast
      then show False by (simp add: settled_def punct_def)
    qed
  qed
  have k47: "\<not> isspace db 47 \<longrightarrow>
      length (filter (\<lambda>c. c = 47)
        (strip_ws (isspace db) (collapse_ws (isspace db) (core db (fst (splitext s))))))
      = length (filter (\<lambda>c. c = 47) (core db (fst (splitext s))))"
    using norm_stem_keeps [of db 47] by simp
  have k92: "\<not> isspace db 92 \<longrightarrow>
      length (filter (\<lambda>c. c = 92)
        (strip_ws (isspace db) (collapse_ws (isspace db) (core db (fst (splitext s))))))
      = length (filter (\<lambda>c. c = 92) (core db (fst (splitext s))))"
    using norm_stem_keeps [of db 92] by simp
  from sanitize_sep_map [of db s] norm_base_core [of db s] sanitize_chars [of 47 db s]
    sanitize_chars [of 92 db s] sanitize_hyphen_origin [of db s]
    norm_stem_no_hyphen [of db "fst (splitext s)"] k47 k92 n
  show ?thesis unfolding Let_def by blast
qed

theorem sanitize_replaces_separators_witness:
  "sanitize_filename ucd_russian (ascii ''a/b'') = ascii ''a-b''
   \<and> 47 \<notin> set (sanitize_filename ucd_russian (ascii ''a/b''))
   \<and> (47 \<in> set (core ucd_russian (ascii ''a/b'')) \<or> 92 \<in> set (core ucd_russian (ascii ''a/b'')))
   \<and> 45 \<notin> set (norm_base ucd_russian (ascii ''a/b''))
   \<and> length (filter (\<lambda>c. c = 47)
        (strip_ws (isspace ucd_russian) (collapse_ws (isspace ucd_russian)
          (core ucd_russian (fst (splitext (ascii ''a/b'')))))))
      = length (filter (\<lambda>c. c = 47) (core ucd_russian (fst (splitext (ascii ''a/b'')))))
   \<and> length (filter (\<lambda>c. c = 47) (core ucd_russian (fst (splitext (ascii ''a/b''))))) = 1"
proof -
  note inst = sanitize_replaces_separators [of ucd_russian "ascii ''a/b''", unfolded Let_def]
  have h: "45 \<in> set (sanitize_filename ucd_russian (ascii ''a/b''))"
    by (simp add: slash_eval) (simp add: ascii_def)
  have sp: "\<not> isspace ucd_russian 47"
    by (simp add: ucd_russian_def ascii_space_def)
  have one: "length (filter (\<lambda>c. c = 47) (core ucd_russian (fst (splitext (ascii ''a/b''))))) = 1"
    by (simp add: core_def eval_defs)
  from inst h sp ucd_russian_wf marks_are_Mn_russian [of "ascii ''a/b''"]
  have "47 \<notin> set (sanitize_filename ucd_russian (ascii ''a/b''))
      \<and> (47 \<in> set (core ucd_russian (ascii ''a/b'')) \<or> 92 \<in> set (core ucd_russian (ascii ''a/b'')))
      \<and> 45 \<notin> set (norm_base ucd_russian (ascii ''a/b''))
      \<and> length (filter (\<lambda>c. c = 47)
           (strip_ws (isspace ucd_russian) (collapse_ws (isspace ucd_russian)
             (core ucd_russian (fst (splitext (ascii ''a/b'')))))))
         = length (filter (\<lambda>c. c = 47) (core ucd_russian (fst (splitext (ascii ''a/b'')))))"
    by blast
  with slash_eval(1) one show ?thesis by blast
qed

text \<open>
  C4 as the specification states it fails for \<open>norm_base\<close>: the slash of "a/b" and
  the backslash are still there, and no hyphen took their place.
\<close>

theorem separators_counterexample:
  "47 \<in> set (norm_base ucd_russian (ascii ''a/b''))
   \<and> 92 \<in> set (norm_base ucd_russian [97, 92, 98])
   \<and> 45 \<notin> set (norm_base ucd_russian (ascii ''a/b''))
   \<and> 45 \<notin> set (norm_base ucd_russian [97, 92, 98])"
  by (simp add: slash_eval) (simp add: ascii_def)

text \<open>
  C8, as the code has it. The result of \<open>sanitize_filename\<close> holds no slash and no
  backslash, none of the deleted punctuation except the hyphen, no two whitespace
  characters in a row, and no whitespace at either end. A hyphen stands in it only
  where a path separator was: the result holds one only if the string after the
  punctuation step (\<open>core\<close>) holds a slash or a backslash, and at most as many as
  there are slashes and backslashes in that string.
\<close>

theorem sanitize_output_shape:
  "47 \<notin> set (sanitize_filename db s) \<and> 92 \<notin> set (sanitize_filename db s)
   \<and> (\<forall>c\<in>set (sanitize_filename db s). c \<in> set punct \<longrightarrow> c = 45)
   \<and> (\<forall>i. Suc i < length (sanitize_filename db s) \<longrightarrow>
         \<not> (isspace db (sanitize_filename db s ! i) \<and> isspace db (sanitize_filename db s ! Suc i)))
   \<and> (sanitize_filename db s \<noteq> [] \<longrightarrow>
         \<not> isspace db (hd (sanitize_filename db s)) \<and> \<not> isspace db (last (sanitize_filename db s)))
   \<and> (45 \<in> set (sanitize_filename db s) \<longrightarrow> 47 \<in> set (core db s) \<or> 92 \<in> set (core db s))
   \<and> length (filter (\<lambda>c. c = 45) (sanitize_filename db s))
       \<le> length (filter (\<lambda>c. c = 47 \<or> c = 92) (core db s))"
proof -
  have t: "tidy (isspace db) (sanitize_filename db s)"
    unfolding sanitize_core by (rule tidy_strip_collapse)
  have p: "\<forall>c\<in>set (sanitize_filename db s). c \<in> set punct \<longrightarrow> c = 45"
  proof (intro ballI impI)
    fix c assume c: "c \<in> set (sanitize_filename db s)" and cp: "c \<in> set punct"
    from sanitize_chars [OF c] have "c = 32 \<or> c = 45 \<or> c \<in> set (core db s)" by simp
    moreover have "c \<notin> set (core db s)" using cp by (simp add: core_def strip_punct_def)
    moreover have "c \<noteq> 32" using cp by (auto simp: punct_def)
    ultimately show "c = 45" by blast
  qed
  have r: "\<forall>i. Suc i < length (sanitize_filename db s) \<longrightarrow>
         \<not> (isspace db (sanitize_filename db s ! i) \<and> isspace db (sanitize_filename db s ! Suc i))"
  proof (intro allI impI)
    fix i assume i: "Suc i < length (sanitize_filename db s)"
    then have "i < length (sanitize_filename db s)" by simp
    with t [unfolded tidy_def ws_tidy_nth] i
    show "\<not> (isspace db (sanitize_filename db s ! i) \<and> isspace db (sanitize_filename db s ! Suc i))"
      by blast
  qed
  from t have e: "sanitize_filename db s \<noteq> [] \<longrightarrow>
         \<not> isspace db (hd (sanitize_filename db s)) \<and> \<not> isspace db (last (sanitize_filename db s))"
    by (simp add: tidy_def)
  from sanitize_chars [of 47 db s] sanitize_chars [of 92 db s] p r e
    sanitize_hyphen_origin [of db s] sanitize_hyphen_count [of db s]
  show ?thesis by blast
qed

lemma messy_eval:
  "sanitize_filename ucd_russian (ascii ''  a/b,  c! '') = ascii ''a-b c''"
  "core ucd_russian (ascii ''  a/b,  c! '') = ascii ''  a/b  c ''"
  by (simp_all add: core_def eval_defs)

theorem sanitize_output_shape_witness:
  "sanitize_filename ucd_russian (ascii ''  a/b,  c! '') = ascii ''a-b c''
   \<and> 47 \<notin> set (sanitize_filename ucd_russian (ascii ''  a/b,  c! ''))
   \<and> \<not> isspace ucd_russian (hd (sanitize_filename ucd_russian (ascii ''  a/b,  c! '')))
   \<and> \<not> isspace ucd_russian (last (sanitize_filename ucd_russian (ascii ''  a/b,  c! '')))
   \<and> (47 \<in> set (core ucd_russian (ascii ''  a/b,  c! ''))
       \<or> 92 \<in> set (core ucd_russian (ascii ''  a/b,  c! '')))
   \<and> length (filter (\<lambda>c. c = 45) (sanitize_filename ucd_russian (ascii ''  a/b,  c! '')))
       \<le> length (filter (\<lambda>c. c = 47 \<or> c = 92) (core ucd_russian (ascii ''  a/b,  c! '')))
   \<and> length (filter (\<lambda>c. c = 47 \<or> c = 92) (core ucd_russian (ascii ''  a/b,  c! ''))) = 1"
proof -
  have ne: "sanitize_filename ucd_russian (ascii ''  a/b,  c! '') \<noteq> []"
    and h: "45 \<in> set (sanitize_filename ucd_russian (ascii ''  a/b,  c! ''))"
    by (simp_all add: messy_eval) (simp_all add: ascii_def)
  have one: "length (filter (\<lambda>c. c = 47 \<or> c = 92) (core ucd_russian (ascii ''  a/b,  c! ''))) = 1"
    by (simp add: messy_eval) (simp add: ascii_def)
  from sanitize_output_shape [of ucd_russian "ascii ''  a/b,  c! ''"] ne h messy_eval(1) one
  show ?thesis by blast
qed

text \<open>
  C8 as the specification states it fails: the hyphen is one of the deleted
  characters, and the result for "a/b" holds one.
\<close>

theorem sanitize_hyphen_counterexample:
  "45 \<in> set punct \<and> 45 \<in> set (sanitize_filename ucd_russian (ascii ''a/b''))"
  by (simp add: slash_eval punct_def) (simp add: ascii_def)

section \<open>The resolver: hint, empty folder, extension filter\<close>

text \<open>
  C3. Tier precedence: when a non-empty hint is given and the folder holds a file
  whose name is the hint followed by ".mp3", that file is selected, whatever the
  display word and whatever else the folder holds.
\<close>

theorem hint_exact_wins:
  assumes "h \<noteq> []" and "path_exists d (h @ ascii ''.mp3'')"
  shows "play_audio_path db d display_word (Some h) = Some (h @ ascii ''.mp3'')"
  using assms by (simp add: play_audio_path_def hint_path_def)

text \<open>
  In \<open>two_names\<close> the display word alone resolves to the first file through the
  normalized scan; the hint overrides it.
\<close>

theorem hint_exact_wins_witness:
  "find_audio_path ucd_russian two_names (ascii ''Exact-Name'') = Some (ascii ''Exact-Name.mp3'')
   \<and> play_audio_path ucd_russian two_names (ascii ''Exact-Name'') (Some (ascii ''exactname''))
       = Some (ascii ''exactname.mp3'')"
proof -
  have norms: "norm_base ucd_russian (ascii ''Exact-Name'') = ascii ''exactname''"
    "norm_base ucd_russian (ascii ''Exact-Name.mp3'') = ascii ''exactname''"
    "sanitize_filename ucd_russian (ascii ''Exact-Name'') = ascii ''ExactName''"
    "str_lower ucd_russian (ascii ''Exact-Name.mp3'') = ascii ''exact-name.mp3''"
    "str_lower ucd_russian (ascii ''exactname.mp3'') = ascii ''exactname.mp3''"
    by (simp_all add: eval_defs)
  have a: "find_audio_path ucd_russian two_names (ascii ''Exact-Name'')
           = Some (ascii ''Exact-Name.mp3'')"
    unfolding resolver_defs two_names_def Let_def
    by (simp add: norms) (simp add: ascii_def endswith_def suffix_to_prefix)
  have n: "ascii ''exactname'' \<noteq> []"
    by (simp add: ascii_def)
  have e: "path_exists two_names (ascii ''exactname'' @ ascii ''.mp3'')"
    by (simp add: two_names_def holding_def ascii_def)
  have b: "play_audio_path ucd_russian two_names (ascii ''Exact-Name'') (Some (ascii ''exactname''))
           = Some (ascii ''exactname.mp3'')"
    using hint_exact_wins [OF n e, of ucd_russian "ascii ''Exact-Name''"]
    by (simp add: ascii_def)
  show ?thesis by (rule conjI [OF a b])
qed













lemma find_Some_mem: "find P xs = Some x \<Longrightarrow> x \<in> set xs \<and> P x"
  by (induction xs) (auto split: if_splits)

lemma scan_normalized_mp3:
  assumes "scan_normalized db (mp3_candidates db names) t = Some f"
  shows "f \<in> set names \<and> endswith (str_lower db f) (ascii ''.mp3'')"
  using find_Some_mem [OF assms [unfolded scan_normalized_def]]
  by (simp add: mp3_candidates_def)

lemma scan_loose_mp3:
  assumes "scan_loose db (mp3_candidates db names) t = Some f"
  shows "f \<in> set names \<and> endswith (str_lower db f) (ascii ''.mp3'')"
  using find_Some_mem [OF assms [unfolded scan_loose_def Let_def]]
  by (simp add: mp3_candidates_def)

lemma find_audio_path_cases:
  assumes "find_audio_path db d w = Some p"
  shows "p = sanitize_filename db w @ ascii ''.mp3''
       \<or> scan_normalized db (mp3_candidates db (entries d)) (norm_base db w) = Some p
       \<or> scan_loose db (mp3_candidates db (entries d)) (norm_base db w) = Some p"
  using assms
  by (simp add: find_audio_path_def listdir_def Let_def split: if_splits option.splits)

text \<open>
  C9. The two scans run over the entries whose lower-cased name ends in ".mp3" and
  return one of them; so whatever \<open>find_audio_path\<close> returns is either the name of
  the direct attempt or such an entry.
\<close>

theorem scans_only_mp3:
  "(scan_normalized db (mp3_candidates db names) t = Some f \<longrightarrow>
      f \<in> set names \<and> endswith (str_lower db f) (ascii ''.mp3''))
   \<and> (scan_loose db (mp3_candidates db names) t = Some f \<longrightarrow>
      f \<in> set names \<and> endswith (str_lower db f) (ascii ''.mp3''))
   \<and> (find_audio_path db d w = Some p \<longrightarrow>
      p = sanitize_filename db w @ ascii ''.mp3''
      \<or> (p \<in> set (entries d) \<and> endswith (str_lower db p) (ascii ''.mp3'')))"
  using scan_normalized_mp3 [of db names t f] scan_loose_mp3 [of db names t f]
    find_audio_path_cases [of db d w p]
    scan_normalized_mp3 [of db "entries d" "norm_base db w" p]
    scan_loose_mp3 [of db "entries d" "norm_base db w" p]
  by blast

text \<open>
  In \<open>mixed_folder\<close> the text file comes first and has the normalized name of the
  display word, yet the loose scan returns the MP3.
\<close>

theorem scans_only_mp3_witness:
  "norm_base ucd_russian (ascii ''ab.txt'') = norm_base ucd_russian (ascii ''ab'')
   \<and> find_audio_path ucd_russian mixed_folder (ascii ''ab'') = Some (ascii ''A B.MP3'')
   \<and> ascii ''A B.MP3'' \<in> set (entries mixed_folder)
   \<and> endswith (str_lower ucd_russian (ascii ''A B.MP3'')) (ascii ''.mp3'')"
proof -
  have norms: "norm_base ucd_russian (ascii ''ab.txt'') = ascii ''ab''"
    "norm_base ucd_russian (ascii ''A B.MP3'') = ascii ''a b''"
    "norm_base ucd_russian (ascii ''ab'') = ascii ''ab''"
    "sanitize_filename ucd_russian (ascii ''ab'') = ascii ''ab''"
    "str_lower ucd_russian (ascii ''ab.txt'') = ascii ''ab.txt''"
    "str_lower ucd_russian (ascii ''A B.MP3'') = ascii ''a b.mp3''"
    by (simp_all add: eval_defs)
  have a: "norm_base ucd_russian (ascii ''ab.txt'') = norm_base ucd_russian (ascii ''ab'')"
    by (simp add: norms)
  have b: "find_audio_path ucd_russian mixed_folder (ascii ''ab'') = Some (ascii ''A B.MP3'')"
    unfolding resolver_defs mixed_folder_def Let_def
    by (simp add: norms remove_spaces_def) (simp add: ascii_def endswith_def suffix_to_prefix)
  have c: "ascii ''A B.MP3'' \<noteq> sanitize_filename ucd_russian (ascii ''ab'') @ ascii ''.mp3''"
    by (simp add: norms) (simp add: ascii_def)
  from scans_only_mp3 [of ucd_russian "[]" "[]" "[]" mixed_folder "ascii ''ab''" "ascii ''A B.MP3''"]
    b c
  have "ascii ''A B.MP3'' \<in> set (entries mixed_folder)
      \<and> endswith (str_lower ucd_russian (ascii ''A B.MP3'')) (ascii ''.mp3'')"
    by blast
  with a b show ?thesis by blast
qed

text \<open>
  C7. The stressed word for "four", a folder holding the unstressed file name and
  another one, in either order, and no hint: the unstressed file is returned.
\<close>

theorem stressed_word_scenario:
  "play_audio_path ucd_russian (holding [chetyre_mp3, drugoe_mp3]) chetyre_stressed None
     = Some chetyre_mp3
   \<and> play_audio_path ucd_russian (holding [drugoe_mp3, chetyre_mp3]) chetyre_stressed None
     = Some chetyre_mp3"
proof -
  have direct: "sanitize_filename ucd_russian chetyre_stressed @ ascii ''.mp3'' = chetyre_mp3"
    by (simp add: chetyre_stressed_def chetyre_mp3_def eval_defs)
  show ?thesis
    unfolding play_audio_path_def hint_path_def find_audio_path_def listdir_def
      holding_def Let_def
    by (simp add: direct)
qed

section \<open>The latest recording: the loop and its invariant\<close>

lemma latest_step_cases:
  "latest_step db mtime base acc x =
     (if wav_match db base x then
        (case mtime x of None \<Rightarrow> acc | Some m \<Rightarrow> if snd acc < m then (Some x, m) else acc)
      else acc)"
  by (simp add: latest_step_def wav_match_def)

lemma latest_inv_step:
  assumes "latest_inv db mtime base xs acc"
  shows "latest_inv db mtime base (xs @ [x]) (latest_step db mtime base acc x)"
proof (cases "wav_match db base x")
  case False
  with assms show ?thesis
    by (auto simp: latest_inv_def latest_step_cases nth_append less_Suc_eq
        split: option.splits)
next
  case match: True
  show ?thesis
  proof (cases "mtime x")
    case None
    with assms match show ?thesis
      by (auto simp: latest_inv_def latest_step_cases nth_append less_Suc_eq
          split: option.splits)
  next
    case (Some m)
    show ?thesis
    proof (cases "snd acc < m")
      case True
      have low: "-1 \<le> snd acc"
        using assms by (auto simp: latest_inv_def split: option.splits)
      have old: "\<forall>j<length xs. wav_match db base (xs ! j) \<longrightarrow>
                   (\<forall>m'. mtime (xs ! j) = Some m' \<longrightarrow> m' \<le> snd acc)"
        using assms by (auto simp: latest_inv_def split: option.splits)
      have step: "latest_step db mtime base acc x = (Some x, m)"
        using match Some True by (simp add: latest_step_cases)
      have "\<forall>j<length xs. wav_match db base (xs ! j) \<longrightarrow>
              (\<forall>m'. mtime (xs ! j) = Some m' \<longrightarrow> m' < m)"
        using old True by fastforce
      with low True match Some show ?thesis
        unfolding step latest_inv_def
        by (auto simp: nth_append less_Suc_eq intro!: exI [of _ "length xs"])
    next
      case False
      have step: "latest_step db mtime base acc x = acc"
        using match Some False by (simp add: latest_step_cases)
      from assms match Some False show ?thesis
        unfolding step latest_inv_def
        by (cases "fst acc") (auto simp: nth_append less_Suc_eq)
    qed
  qed
qed

lemma latest_inv_foldl:
  "latest_inv db mtime base xs (foldl (latest_step db mtime base) (None, -1) xs)"
proof (induction xs rule: rev_induct)
  case Nil
  show ?case by (simp add: latest_inv_def)
next
  case (snoc x xs)
  from latest_inv_step [OF snoc.IH, of x] show ?case by simp
qed

lemma find_latest_inv:
  assumes "is_dir d" and "listable d"
  shows "\<exists>acc. find_latest_user_recording db d mtime w = fst acc
             \<and> latest_inv db mtime (sanitize_filename db w) (entries d) acc"
proof (intro exI conjI)
  show "find_latest_user_recording db d mtime w
        = fst (foldl (latest_step db mtime (sanitize_filename db w)) (None, -1) (entries d))"
    using assms by (simp add: find_latest_user_recording_def listdir_def Let_def)
  show "latest_inv db mtime (sanitize_filename db w) (entries d)
          (foldl (latest_step db mtime (sanitize_filename db w)) (None, -1) (entries d))"
    by (rule latest_inv_foldl)
qed

lemma find_latest_Some_dir:
  "find_latest_user_recording db d mtime w = Some f \<Longrightarrow> is_dir d \<and> listable d"
  by (auto simp: find_latest_user_recording_def listdir_def split: if_splits)

lemma find_latest_Some:
  assumes "find_latest_user_recording db d mtime w = Some f"
  shows "\<exists>i m. i < length (entries d) \<and> entries d ! i = f
           \<and> wav_match db (sanitize_filename db w) f \<and> mtime f = Some m \<and> -1 < m
           \<and> (\<forall>j<length (entries d). wav_match db (sanitize_filename db w) (entries d ! j) \<longrightarrow>
                 (\<forall>m'. mtime (entries d ! j) = Some m' \<longrightarrow> m' \<le> m))
           \<and> (\<forall>j<i. wav_match db (sanitize_filename db w) (entries d ! j) \<longrightarrow>
                 (\<forall>m'. mtime (entries d ! j) = Some m' \<longrightarrow> m' < m))"
proof -
  from find_latest_Some_dir [OF assms] find_latest_inv [of d db mtime w]
  obtain acc where acc: "find_latest_user_recording db d mtime w = fst acc"
    and inv: "latest_inv db mtime (sanitize_filename db w) (entries d) acc"
    by blast
  from acc assms have "fst acc = Some f" by simp
  with inv show ?thesis
    unfolding latest_inv_def by (simp only: option.case) blast
qed

lemma find_latest_None:
  assumes "is_dir d" and "listable d"
    and "find_latest_user_recording db d mtime w = None"
    and "g \<in> set (entries d)" and "wav_match db (sanitize_filename db w) g"
    and "mtime g = Some m"
  shows "m \<le> -1"
proof -
  from find_latest_inv [OF assms(1,2), of db mtime w]
  obtain acc where acc: "find_latest_user_recording db d mtime w = fst acc"
    and inv: "latest_inv db mtime (sanitize_filename db w) (entries d) acc"
    by blast
  from acc assms(3) have none: "fst acc = None" by simp
  from assms(4) obtain j where j: "j < length (entries d)" "entries d ! j = g"
    by (auto simp: in_set_conv_nth)
  from inv none j assms(5,6) show ?thesis
    by (auto simp: latest_inv_def)
qed

text \<open>
  C2, as the code has it. The loop replaces the current entry only by a strictly newer
  one, so among the matching entries of greatest modification time the one listed
  first is returned: every matching entry is at most as new, and every earlier one is
  strictly older. A matching entry newer than -1 makes the result an entry. The result
  is a function of the listing, its order included.
\<close>

theorem latest_first_of_greatest:
  "(find_latest_user_recording db d mtime w = Some f \<longrightarrow>
      (\<exists>i m. i < length (entries d) \<and> entries d ! i = f
         \<and> wav_match db (sanitize_filename db w) f \<and> mtime f = Some m \<and> -1 < m
         \<and> (\<forall>j<length (entries d). wav_match db (sanitize_filename db w) (entries d ! j) \<longrightarrow>
               (\<forall>m'. mtime (entries d ! j) = Some m' \<longrightarrow> m' \<le> m))
         \<and> (\<forall>j<i. wav_match db (sanitize_filename db w) (entries d ! j) \<longrightarrow>
               (\<forall>m'. mtime (entries d ! j) = Some m' \<longrightarrow> m' < m))))
   \<and> (is_dir d \<and> listable d \<and> g \<in> set (entries d)
        \<and> wav_match db (sanitize_filename db w) g \<and> mtime g = Some m0 \<and> -1 < m0 \<longrightarrow>
      find_latest_user_recording db d mtime w \<noteq> None)"
proof (intro conjI impI)
  assume "find_latest_user_recording db d mtime w = Some f"
  from find_latest_Some [OF this]
  show "\<exists>i m. i < length (entries d) \<and> entries d ! i = f
         \<and> wav_match db (sanitize_filename db w) f \<and> mtime f = Some m \<and> -1 < m
         \<and> (\<forall>j<length (entries d). wav_match db (sanitize_filename db w) (entries d ! j) \<longrightarrow>
               (\<forall>m'. mtime (entries d ! j) = Some m' \<longrightarrow> m' \<le> m))
         \<and> (\<forall>j<i. wav_match db (sanitize_filename db w) (entries d ! j) \<longrightarrow>
               (\<forall>m'. mtime (entries d ! j) = Some m' \<longrightarrow> m' < m))" .
next
  assume a: "is_dir d \<and> listable d \<and> g \<in> set (entries d)
        \<and> wav_match db (sanitize_filename db w) g \<and> mtime g = Some m0 \<and> -1 < m0"
  show "find_latest_user_recording db d mtime w \<noteq> None"
  proof
    assume "find_latest_user_recording db d mtime w = None"
    with a find_latest_None [of d db mtime w g m0] have "m0 \<le> -1" by blast
    with a show False by simp
  qed
qed

lemma tie_eval:
  "sanitize_filename ucd_russian (ascii ''a'') = ascii ''a''"
  "str_lower ucd_russian (ascii ''a1.wav'') = ascii ''a1.wav''"
  "str_lower ucd_russian (ascii ''a2.wav'') = ascii ''a2.wav''"
  "splitext (ascii ''a1.wav'') = (ascii ''a1'', ascii ''.wav'')"
  "splitext (ascii ''a2.wav'') = (ascii ''a2'', ascii ''.wav'')"
  by (simp_all add: eval_defs)

lemma tie_result:
  "find_latest_user_recording ucd_russian tie_folder tie_mtime (ascii ''a'')
   = Some (ascii ''a1.wav'')"
  unfolding find_latest_user_recording_def listdir_def tie_folder_def holding_def Let_def
  by (simp add: latest_step_def tie_eval tie_mtime_def)
     (simp add: ascii_def endswith_def startswith_def suffix_to_prefix)

text \<open>
  C2 as the specification states it fails: two recordings of the same word with equal
  modification times, and the first listed is returned, not the last.
\<close>

theorem latest_tie_counterexample:
  "wav_match ucd_russian (sanitize_filename ucd_russian (ascii ''a'')) (ascii ''a1.wav'')
   \<and> wav_match ucd_russian (sanitize_filename ucd_russian (ascii ''a'')) (ascii ''a2.wav'')
   \<and> tie_mtime (ascii ''a1.wav'') = tie_mtime (ascii ''a2.wav'')
   \<and> entries tie_folder = [ascii ''a1.wav'', ascii ''a2.wav'']
   \<and> find_latest_user_recording ucd_russian tie_folder tie_mtime (ascii ''a'')
       \<noteq> Some (ascii ''a2.wav'')"
proof -
  have m: "wav_match ucd_russian (sanitize_filename ucd_russian (ascii ''a'')) (ascii ''a1.wav'')"
    "wav_match ucd_russian (sanitize_filename ucd_russian (ascii ''a'')) (ascii ''a2.wav'')"
    by (simp_all add: wav_match_def tie_eval)
       (simp_all add: ascii_def endswith_def startswith_def suffix_to_prefix)
  have r: "find_latest_user_recording ucd_russian tie_folder tie_mtime (ascii ''a'')
           \<noteq> Some (ascii ''a2.wav'')"
    by (simp add: tie_result) (simp add: ascii_def)
  from m r show ?thesis
    by (simp add: tie_mtime_def tie_folder_def holding_def)
qed

theorem latest_first_of_greatest_witness:
  "find_latest_user_recording ucd_russian tie_folder tie_mtime (ascii ''a'')
     = Some (ascii ''a1.wav'')
   \<and> (\<exists>i m. i < length (entries tie_folder) \<and> entries tie_folder ! i = ascii ''a1.wav''
         \<and> tie_mtime (ascii ''a1.wav'') = Some m \<and> -1 < m
         \<and> (\<forall>j<i. \<forall>m'. tie_mtime (entries tie_folder ! j) = Some m' \<longrightarrow> m' < m))"
proof -
  from latest_first_of_greatest
    [of ucd_russian tie_folder tie_mtime "ascii ''a''" "ascii ''a1.wav''" "[]" 0] tie_result
  obtain i m where im: "i < length (entries tie_folder)" "entries tie_folder ! i = ascii ''a1.wav''"
    "tie_mtime (ascii ''a1.wav'') = Some m" "-1 < m"
    "\<forall>j<i. wav_match ucd_russian (sanitize_filename ucd_russian (ascii ''a''))
              (entries tie_folder ! j) \<longrightarrow>
        (\<forall>m'. tie_mtime (entries tie_folder ! j) = Some m' \<longrightarrow> m' < m)"
    by blast
  have "i = 0"
    using im(1,2) by (auto simp: tie_folder_def holding_def ascii_def less_Suc_eq)
  with im tie_result show ?thesis
    by (intro conjI exI [of _ 0] exI [of _ m]) simp_all
qed

text \<open>
  C6. Only the display word is normalized (by \<open>sanitize_filename\<close>); an entry passes
  when its stem as listed starts with that string. Without entries, and when no stem
  starts with it, the result is \<open>None\<close>; a result is an entry whose stem starts
  with it.
\<close>

theorem latest_prefix_test:
  "(entries d = [] \<longrightarrow> find_latest_user_recording db d mtime w = None)
   \<and> ((\<forall>f\<in>set (entries d). \<not> startswith (fst (splitext f)) (sanitize_filename db w)) \<longrightarrow>
        find_latest_user_recording db d mtime w = None)
   \<and> (find_latest_user_recording db d mtime w = Some f \<longrightarrow>
        f \<in> set (entries d) \<and> startswith (fst (splitext f)) (sanitize_filename db w))"
proof -
  have some: "f' \<in> set (entries d) \<and> startswith (fst (splitext f')) (sanitize_filename db w)"
    if "find_latest_user_recording db d mtime w = Some f'" for f'
    using find_latest_Some [OF that] by (auto simp: wav_match_def)
  have a: "find_latest_user_recording db d mtime w = None" if "entries d = []"
    using some that by (cases "find_latest_user_recording db d mtime w") auto
  have b: "find_latest_user_recording db d mtime w = None"
    if "\<forall>f\<in>set (entries d). \<not> startswith (fst (splitext f)) (sanitize_filename db w)"
    using some that by (cases "find_latest_user_recording db d mtime w") auto
  from a b some [of f] show ?thesis by blast
qed

lemma takes_eval:
  "sanitize_filename ucd_russian (ascii ''Hello!'') = ascii ''Hello''"
  "sanitize_filename ucd_russian (ascii ''HELLO'') = ascii ''HELLO''"
  "str_lower ucd_russian (ascii ''hello_your_voice.wav'') = ascii ''hello_your_voice.wav''"
  "str_lower ucd_russian (ascii ''Hello_your_voice.wav'') = ascii ''hello_your_voice.wav''"
  "splitext (ascii ''hello_your_voice.wav'') = (ascii ''hello_your_voice'', ascii ''.wav'')"
  "splitext (ascii ''Hello_your_voice.wav'') = (ascii ''Hello_your_voice'', ascii ''.wav'')"
  by (simp_all add: eval_defs)

text \<open>
  In \<open>takes_folder\<close> the lower-case recording is the newer one, but its stem does not
  start with the sanitized word "Hello"; for the word "HELLO" no stem does.
\<close>

theorem latest_prefix_test_witness:
  "find_latest_user_recording ucd_russian takes_folder takes_mtime (ascii ''Hello!'')
     = Some (ascii ''Hello_your_voice.wav'')
   \<and> startswith (fst (splitext (ascii ''Hello_your_voice.wav'')))
       (sanitize_filename ucd_russian (ascii ''Hello!''))
   \<and> find_latest_user_recording ucd_russian takes_folder takes_mtime (ascii ''HELLO'') = None
   \<and> find_latest_user_recording ucd_russian empty_folder takes_mtime (ascii ''Hello!'') = None"
proof -
  have r: "find_latest_user_recording ucd_russian takes_folder takes_mtime (ascii ''Hello!'')
           = Some (ascii ''Hello_your_voice.wav'')"
    unfolding find_latest_user_recording_def listdir_def takes_folder_def holding_def Let_def
    by (simp add: latest_step_def takes_eval takes_mtime_def)
       (simp add: ascii_def endswith_def startswith_def suffix_to_prefix)
  have p: "startswith (fst (splitext (ascii ''Hello_your_voice.wav'')))
             (sanitize_filename ucd_russian (ascii ''Hello!''))"
    using latest_prefix_test
      [of takes_folder ucd_russian takes_mtime "ascii ''Hello!''" "ascii ''Hello_your_voice.wav''"]
      r
    by blast
  have no: "\<forall>f\<in>set (entries takes_folder).
              \<not> startswith (fst (splitext f)) (sanitize_filename ucd_russian (ascii ''HELLO''))"
    by (simp add: takes_folder_def holding_def takes_eval) (simp add: ascii_def startswith_def)
  have n: "find_latest_user_recording ucd_russian takes_folder takes_mtime (ascii ''HELLO'') = None"
    using latest_prefix_test
      [of takes_folder ucd_russian takes_mtime "ascii ''HELLO''" "[]"] no
    by blast
  have e: "find_latest_user_recording ucd_russian empty_folder takes_mtime (ascii ''Hello!'') = None"
    using latest_prefix_test [of empty_folder ucd_russian takes_mtime "ascii ''Hello!''" "[]"]
    by (simp add: empty_folder_def holding_def)
  from r p n e show ?thesis by blast
qed

end
